theory Spec2Isabelle
  imports Complex_Main "HOL-Library.Stream"
begin

section \<open>chart.py: customer spending by segment\<close>

text \<open>
  The script draws three arrays of log-normal samples from one seeded generator, multiplies
  a few randomly chosen entries of each by a random factor (\<open>add_outliers\<close>), rounds to two
  decimals, assembles a two-column table and renders a box plot whose y tick labels are
  currency strings.

  Conventions of the embedding:
  \<^item> a float is a \<open>real\<close>, so the rounding error of floating-point arithmetic is left
    out, except in \<open>np.round\<close>, where the nearest binary64 value is a parameter; an
    \<open>ndarray\<close> of floats is a \<open>real list\<close>;
  \<^item> arrays live in a heap addressed by references, since \<open>add_outliers\<close> assigns into the
    array it is given;
  \<^item> an exception is a value \<open>Inl e\<close>, returned together with the state at the raise;
  \<^item> the bit generator behind \<open>rng\<close> is the stream of its raw 64-bit outputs together
    with the half-word its 32-bit reads keep back; the draws of the sampling library are
    computed from it.
\<close>

subsection \<open>Errors and state\<close>

datatype error =
    ValueError_choice       \<comment> \<open>\<open>rng.choice\<close>: negative size, or sample larger than population\<close>
  | ValueError_range        \<comment> \<open>\<open>rng.uniform\<close>: an upper bound below the lower bound\<close>
  | ValueError_broadcast    \<comment> \<open>\<open>rng.uniform\<close>: bounds do not broadcast to the requested size\<close>
  | ValueError_size         \<comment> \<open>a negative output size\<close>
  | ValueError_frame        \<comment> \<open>\<open>pd.DataFrame\<close>: columns of different lengths\<close>

record bitgen =
  words :: "nat stream"        \<comment> \<open>the 64-bit outputs still to come\<close>
  uinteger :: "nat option"     \<comment> \<open>the high half kept back by the last 32-bit read, if unused\<close>

type_synonym ndarray = "real list"
type_synonym ref = nat

record image =
  px_width :: nat
  px_height :: nat

record state =
  heap :: "ref \<Rightarrow> ndarray"
  fresh :: ref
  rng :: bitgen
  files :: "string \<rightharpoonup> image"

type_synonym 'a run = "state \<Rightarrow> (error + 'a) \<times> state"

definition alloc :: "ndarray \<Rightarrow> state \<Rightarrow> ref \<times> state" where
  "alloc xs s = (fresh s, s\<lparr>heap := (heap s)(fresh s := xs), fresh := Suc (fresh s)\<rparr>)"

definition bind_run :: "'a run \<Rightarrow> ('a \<Rightarrow> 'b run) \<Rightarrow> 'b run" where
  "bind_run m f s = (case m s of (Inl e, s') \<Rightarrow> (Inl e, s') | (Inr x, s') \<Rightarrow> f x s')"

subsection \<open>The generator's draws\<close>

text \<open>
  A 64-bit read takes the next output. A 32-bit read returns the half kept back by the
  read before it, or else the low half of the next output, keeping its high half back.
  \<open>next_double\<close> is the library's 53-bit double in \<open>[0, 1)\<close>: the top 53 bits of a 64-bit
  read, scaled by \<open>2 ^ 53\<close>.

  \<open>bounded_uint64 m\<close> is the library's draw from \<open>0 .. m\<close>. Nothing is read when \<open>m = 0\<close>.
  Below \<open>2 ^ 32 - 1\<close> a 32-bit read \<open>h\<close> is scaled to the high word of \<open>h * (m + 1)\<close>; the
  other bounds read the whole range or scale a 64-bit read in the same way. The library
  takes the candidate when \<open>lemire_accepts\<close> holds of it and reads again otherwise; the model
  takes the first candidate, so it follows the library on the generators whose candidates
  are accepted, and all generators of the concrete inputs below are of that kind
  (\<open>lemire_accepts_small\<close>).
\<close>

definition next_uint64 :: "bitgen \<Rightarrow> nat \<times> bitgen" where
  "next_uint64 g = (shd (words g) mod 2 ^ 64, g\<lparr>words := stl (words g)\<rparr>)"

definition next_uint32 :: "bitgen \<Rightarrow> nat \<times> bitgen" where
  "next_uint32 g =
     (case uinteger g of
        Some h \<Rightarrow> (h mod 2 ^ 32, g\<lparr>uinteger := None\<rparr>)
      | None \<Rightarrow>
          (case next_uint64 g of
             (w, g') \<Rightarrow> (w mod 2 ^ 32, g'\<lparr>uinteger := Some (w div 2 ^ 32)\<rparr>)))"

definition next_double :: "bitgen \<Rightarrow> real \<times> bitgen" where
  "next_double g = (case next_uint64 g of (r, g') \<Rightarrow> (real (r div 2 ^ 11) / 2 ^ 53, g'))"

definition lemire_accepts :: "nat \<Rightarrow> nat \<Rightarrow> bool" where
  \<comment> \<open>the low word of the product is not below \<open>2 ^ 32 mod (m + 1)\<close>\<close>
  "lemire_accepts m h = (2 ^ 32 mod (m + 1) \<le> h * (m + 1) mod 2 ^ 32)"

definition bounded_uint64 :: "nat \<Rightarrow> bitgen \<Rightarrow> nat \<times> bitgen" where
  "bounded_uint64 m g =
     (if m = 0 then (0, g)
      else if m < 2 ^ 32 - 1
        then (case next_uint32 g of (h, g') \<Rightarrow> (h * (m + 1) div 2 ^ 32, g'))
      else if m = 2 ^ 32 - 1 then next_uint32 g
      else if m = 2 ^ 64 - 1 then next_uint64 g
      else (case next_uint64 g of (w, g') \<Rightarrow> (w * (m + 1) div 2 ^ 64, g')))"

fun doubles :: "nat \<Rightarrow> bitgen \<Rightarrow> real list \<times> bitgen" where
  "doubles 0 g = ([], g)"
| "doubles (Suc n) g =
     (case next_double g of (u, g') \<Rightarrow> case doubles n g' of (us, g'') \<Rightarrow> (u # us, g''))"

subsection \<open>\<open>rng.choice(n, size=count, replace=False)\<close>\<close>

text \<open>
  Sampling without replacement. For a population of at most 10000, or a sample of at most a
  fiftieth of it, the library runs Floyd's algorithm: for \<open>j\<close> from \<open>n - k\<close> to \<open>n - 1\<close> it
  draws \<open>v\<close> from \<open>0 .. j\<close> and records \<open>v\<close>, or \<open>j\<close> when \<open>v\<close> was recorded before; the
  result is then shuffled. Otherwise it shuffles the last \<open>k\<close> places of \<open>0 .. n - 1\<close> and
  returns them. The shuffle \<open>shuffle_int first n\<close> swaps place \<open>i\<close>, for \<open>i\<close> from \<open>n - 1\<close>
  down to \<open>first\<close>, with a place drawn from \<open>0 .. i\<close>.
\<close>

fun floyd :: "nat \<Rightarrow> nat \<Rightarrow> nat list \<Rightarrow> bitgen \<Rightarrow> nat list \<times> bitgen" where
  "floyd 0 j acc g = (acc, g)"
| "floyd (Suc r) j acc g =
     (case bounded_uint64 j g of
        (v, g') \<Rightarrow> floyd r (Suc j) (acc @ [if v \<in> set acc then j else v]) g')"

fun shuffle_int :: "nat \<Rightarrow> nat \<Rightarrow> nat list \<Rightarrow> bitgen \<Rightarrow> nat list \<times> bitgen" where
  "shuffle_int first 0 xs g = (xs, g)"
| "shuffle_int first (Suc i) xs g =
     (if Suc i \<le> first then (xs, g)
      else case bounded_uint64 i g of
        (j, g') \<Rightarrow> shuffle_int first i (xs[j := xs ! i, i := xs ! j]) g')"

definition choice :: "nat \<Rightarrow> int \<Rightarrow> bitgen \<Rightarrow> error + (nat list \<times> bitgen)" where
  "choice n count g =
     (if count < 0 \<or> int n < count then Inl ValueError_choice
      else let k = nat count in
        if 10000 < n \<and> n div 50 < k
        then (case shuffle_int (max (n - k) 1) n [0..<n] g of
                (xs, g') \<Rightarrow> Inr (drop (n - k) xs, g'))
        else (case floyd k (n - k) [] g of
                (idx, g') \<Rightarrow> Inr (shuffle_int 1 k idx g')))"

subsection \<open>\<open>rng.uniform(low, high, size=count)\<close>\<close>

text \<open>
  The lower bound is a scalar and the upper bound a one-dimensional array. The library
  first raises when some upper bound lies below the lower bound, then broadcasts the bounds
  against an output of \<open>count\<close> elements and raises when the shapes do not agree; no output
  of the generator is consumed before these checks. Element \<open>i\<close> is
  \<open>low + (high[i] - low) * u\<close> for the next double \<open>u\<close>.
\<close>

definition uniform :: "real \<Rightarrow> real list \<Rightarrow> int \<Rightarrow> bitgen \<Rightarrow> error + (real list \<times> bitgen)" where
  "uniform low high count g =
     (if list_ex (\<lambda>h. h - low < 0) high then Inl ValueError_range
      else if count < 0 then Inl ValueError_size
      else if int (length high) \<noteq> count \<and> length high \<noteq> 1 then Inl ValueError_broadcast
      else let highs = (if length high = 1 then replicate (nat count) (hd high) else high) in
        case doubles (nat count) g of
          (us, g') \<Rightarrow> Inr (map2 (\<lambda>h u. low + (h - low) * u) highs us, g'))"

subsection \<open>\<open>add_outliers\<close>\<close>

text \<open>
  \<^verbatim>\<open>
  def add_outliers(arr, count, factor_range=(3, 6)):
      idx = rng.choice(len(arr), size=count, replace=False)
      factors = rng.uniform(factor_range[0], factor_range, size=count)
      arr[idx] = arr[idx] * factors
      return arr
  \<close>
  The upper bound handed to \<open>rng.uniform\<close> is the whole pair \<open>factor_range\<close>, an array of
  two elements. \<open>assign\<close> is the indexed assignment \<open>arr[idx] = vals\<close>; the indices come from
  \<open>choice\<close> and are in range.
\<close>

definition assign :: "ndarray \<Rightarrow> nat list \<Rightarrow> real list \<Rightarrow> ndarray" where
  "assign arr idx vals = foldl (\<lambda>a (i, v). a[i := v]) arr (zip idx vals)"

definition add_outliers :: "ref \<Rightarrow> int \<Rightarrow> real \<times> real \<Rightarrow> ref run" where
  "add_outliers arr count factor_range s =
     (case choice (length (heap s arr)) count (rng s) of
        Inl e \<Rightarrow> (Inl e, s)
      | Inr (idx, g1) \<Rightarrow>
         (case uniform (fst factor_range) [fst factor_range, snd factor_range] count g1 of
            Inl e \<Rightarrow> (Inl e, s\<lparr>rng := g1\<rparr>)
          | Inr (factors, g2) \<Rightarrow>
              (Inr arr,
               s\<lparr>heap := (heap s)
                    (arr := assign (heap s arr) idx
                              (map2 (*) (map ((!) (heap s arr)) idx) factors)),
                 rng := g2\<rparr>)))"

subsection \<open>Sampling, rounding and the table\<close>

text \<open>
  What the plotting and sampling libraries compute and the script does not constrain is a
  parameter: the seeding of the generator, the standard normal draw, the rounding of a real
  to the nearest binary64 value (used where a statement could depend on it: in \<open>np.round\<close>),
  the tick positions the plotting library picks for the y axis, and the raster it writes.
\<close>

record dataframe =
  segment :: "string list"
  spend :: "real list"

record lib =
  default_rng :: "nat \<Rightarrow> bitgen"
  standard_normal :: "bitgen \<Rightarrow> real \<times> bitgen"
  binary64 :: "real \<Rightarrow> real"
  get_yticks :: "dataframe \<Rightarrow> real list"
  savefig :: "dataframe \<Rightarrow> string list \<Rightarrow> image"

definition n_per_segment :: nat where
  "n_per_segment = 400"

definition segments :: "string list" where
  "segments = [''Budget'', ''Standard'', ''Premium'']"

fun normals :: "(bitgen \<Rightarrow> real \<times> bitgen) \<Rightarrow> nat \<Rightarrow> bitgen \<Rightarrow> real list \<times> bitgen" where
  "normals draw 0 g = ([], g)"
| "normals draw (Suc n) g =
     (case draw g of (z, g') \<Rightarrow> case normals draw n g' of (zs, g'') \<Rightarrow> (z # zs, g''))"

definition lognormal :: "lib \<Rightarrow> real \<Rightarrow> real \<Rightarrow> nat \<Rightarrow> ref run" where
  \<comment> \<open>\<open>rng.lognormal(mean, sigma, size)\<close>: \<open>exp (mean + sigma * z)\<close> for each normal draw \<open>z\<close>\<close>
  "lognormal L mean sigma n s =
     (case normals (standard_normal L) n (rng s) of
        (zs, g') \<Rightarrow>
          (case alloc (map (\<lambda>z. exp (mean + sigma * z)) zs) (s\<lparr>rng := g'\<rparr>) of
             (r, s') \<Rightarrow> (Inr r, s')))"

definition rint :: "real \<Rightarrow> int" where
  \<comment> \<open>round to the nearest integer, a tie to the even one\<close>
  "rint x =
     (let f = \<lfloor>x\<rfloor>; d = x - of_int f
      in if d < 1 / 2 then f else if 1 / 2 < d then f + 1 else if even f then f else f + 1)"

definition np_round :: "lib \<Rightarrow> ndarray \<Rightarrow> nat \<Rightarrow> ndarray" where
  \<comment> \<open>\<open>np.round(a, decimals)\<close>: multiply by \<open>10 ^ decimals\<close>, round to the nearest integer,
      divide by \<open>10 ^ decimals\<close>; the product and the quotient are binary64 values\<close>
  "np_round L a decimals =
     map (\<lambda>x. binary64 L (of_int (rint (binary64 L (x * 10 ^ decimals))) / 10 ^ decimals)) a"

definition round_array :: "lib \<Rightarrow> ref \<Rightarrow> nat \<Rightarrow> ref run" where
  "round_array L a decimals s =
     (case alloc (np_round L (heap s a) decimals) s of (r, s') \<Rightarrow> (Inr r, s'))"

definition np_repeat :: "'a list \<Rightarrow> nat \<Rightarrow> 'a list" where
  "np_repeat xs n = concat (map (replicate n) xs)"

definition DataFrame :: "string list \<Rightarrow> real list \<Rightarrow> error + dataframe" where
  "DataFrame seg sp =
     (if length seg = length sp then Inr \<lparr>segment = seg, spend = sp\<rparr>
      else Inl ValueError_frame)"

definition make_df :: "ndarray \<Rightarrow> ndarray \<Rightarrow> ndarray \<Rightarrow> error + dataframe" where
  \<comment> \<open>lines 46 to 49, from the three rounded arrays\<close>
  "make_df budget_spend standard_spend premium_spend =
     DataFrame (np_repeat segments n_per_segment)
       (budget_spend @ standard_spend @ premium_spend)"

definition assemble :: "ref \<Rightarrow> ref \<Rightarrow> ref \<Rightarrow> dataframe run" where
  "assemble b st p s = (make_df (heap s b) (heap s st) (heap s p), s)"

subsection \<open>Tick labels\<close>

text \<open>
  \<^verbatim>\<open>[f"${int(t):,}" if t >= 1 else f"${t:.2f}" for t in y_ticks]\<close>

  \<open>int\<close> truncates toward zero; \<open>{:,}\<close> writes an integer in decimal with a comma before
  every group of three digits counted from the right; \<open>{:.2f}\<close> writes the sign, the integer
  part and two decimals of the value rounded to hundredths, a tie to the even neighbour.
\<close>

definition py_int :: "real \<Rightarrow> int" where
  "py_int t = (if 0 \<le> t then \<lfloor>t\<rfloor> else \<lceil>t\<rceil>)"

definition digit_char :: "nat \<Rightarrow> char" where
  "digit_char d = char_of (48 + d)"

fun digits_of :: "nat \<Rightarrow> string" where
  "digits_of n = (if n < 10 then [digit_char n] else digits_of (n div 10) @ [digit_char (n mod 10)])"

fun group3 :: "string \<Rightarrow> string" where
  "group3 ds =
     (if length ds \<le> 3 then ds
      else group3 (take (length ds - 3) ds) @ CHR '','' # drop (length ds - 3) ds)"

declare digits_of.simps [simp del] group3.simps [simp del]

definition format_int_comma :: "int \<Rightarrow> string" where
  "format_int_comma n = (if n < 0 then ''-'' else []) @ group3 (digits_of (nat \<bar>n\<bar>))"

definition format_fixed2 :: "real \<Rightarrow> string" where
  "format_fixed2 t =
     (let n = nat (rint (\<bar>t\<bar> * 100))
      in (if t < 0 then ''-'' else []) @ digits_of (n div 100) @ ''.''
           @ [digit_char (n mod 100 div 10), digit_char (n mod 10)])"

definition tick_label :: "real \<Rightarrow> string" where
  "tick_label t =
     (if 1 \<le> t then ''$'' @ format_int_comma (py_int t) else ''$'' @ format_fixed2 t)"

text \<open>
  The specification's reading of the two shapes. A whole-dollar amount with thousands
  separators is written group by group: an amount below 1000 as it is, a larger one as its
  thousands, a comma and the three digits of the rest. \<open>digits_value\<close> reads a label back:
  the number its digits spell, whatever stands between them.
\<close>

fun spec_whole_dollars :: "nat \<Rightarrow> string" where
  "spec_whole_dollars n =
     (if n < 1000 then digits_of n
      else spec_whole_dollars (n div 1000) @ '','' @
             [digit_char (n div 100 mod 10), digit_char (n div 10 mod 10), digit_char (n mod 10)])"

declare spec_whole_dollars.simps [simp del]

definition is_digit :: "char \<Rightarrow> bool" where
  "is_digit c = (48 \<le> (of_char c :: nat) \<and> (of_char c :: nat) \<le> 57)"

definition digit_val :: "char \<Rightarrow> nat" where
  "digit_val c = of_char c - 48"

definition digits_value :: "string \<Rightarrow> nat" where
  "digits_value s = foldl (\<lambda>a c. 10 * a + digit_val c) 0 (filter is_digit s)"

subsection \<open>The script\<close>

definition render :: "lib \<Rightarrow> dataframe \<Rightarrow> dataframe run" where
  \<comment> \<open>lines 58 to 98: draw, relabel the y ticks, write \<open>chart.png\<close> over any older file\<close>
  "render L d s =
     (let labels = map tick_label (get_yticks L d)
      in (Inr d, s\<lparr>files := (files s)(''chart.png'' \<mapsto> savefig L d labels)\<rparr>))"

definition init :: "lib \<Rightarrow> (string \<rightharpoonup> image) \<Rightarrow> state" where
  "init L fs = \<lparr>heap = (\<lambda>_. []), fresh = 0, rng = default_rng L 42, files = fs\<rparr>"

definition script :: "lib \<Rightarrow> (string \<rightharpoonup> image) \<Rightarrow> (error + dataframe) \<times> state" where
  "script L fs =
     bind_run (lognormal L (ln 20) 0.6 n_per_segment) (\<lambda>budget_spend.
     bind_run (lognormal L (ln 45) 0.55 n_per_segment) (\<lambda>standard_spend.
     bind_run (lognormal L (ln 90) 0.5 n_per_segment) (\<lambda>premium_spend.
     bind_run (add_outliers budget_spend 6 (3, 6)) (\<lambda>budget_spend.
     bind_run (add_outliers standard_spend 8 (3, 6)) (\<lambda>standard_spend.
     bind_run (add_outliers premium_spend 10 (3, 6)) (\<lambda>premium_spend.
     bind_run (round_array L budget_spend 2) (\<lambda>budget_spend.
     bind_run (round_array L standard_spend 2) (\<lambda>standard_spend.
     bind_run (round_array L premium_spend 2) (\<lambda>premium_spend.
     bind_run (assemble budget_spend standard_spend premium_spend) (\<lambda>df.
     render L df)))))))))) (init L fs)"

definition sampled :: "lib \<Rightarrow> (string \<rightharpoonup> image) \<Rightarrow> state" where
  \<comment> \<open>the state after lines 8 to 27: the generator seeded, the three sample arrays drawn\<close>
  "sampled L fs =
     snd (bind_run (lognormal L (ln 20) 0.6 n_per_segment) (\<lambda>_.
          bind_run (lognormal L (ln 45) 0.55 n_per_segment) (\<lambda>_.
          lognormal L (ln 90) 0.5 n_per_segment)) (init L fs))"

subsection \<open>Concrete inputs\<close>

text \<open>
  The generators below repeat outputs whose two halves are a small positive number, which
  every bound of the draws made here accepts. \<open>small_state\<close> gives two such outputs to the
  index draw and the output \<open>2 ^ 63\<close>, the double one half, to the factor draw.
\<close>

definition small_state :: state where
  \<comment> \<open>one array of three samples at reference 0\<close>
  "small_state =
     \<lparr>heap = (\<lambda>_. [10, 20, 30]), fresh = 1,
      rng = \<lparr>words = 8589934594 ## 8589934594 ## sconst 9223372036854775808,
             uinteger = None\<rparr>,
      files = Map.empty\<rparr>"

definition segment_state :: state where
  \<comment> \<open>one array of 400 samples at reference 0\<close>
  "segment_state =
     \<lparr>heap = (\<lambda>_. replicate 400 20), fresh = 1,
      rng = \<lparr>words = sconst 4294967297, uinteger = None\<rparr>,
      files = Map.empty\<rparr>"

definition plain_lib :: lib where
  "plain_lib =
     \<lparr>default_rng = (\<lambda>seed. \<lparr>words = sconst (seed * 4294967297), uinteger = None\<rparr>),
      standard_normal = (\<lambda>g. (0, g\<lparr>words := stl (words g)\<rparr>)),
      binary64 = (\<lambda>x. x),
      get_yticks = (\<lambda>d. [0, 200, 400]),
      savefig = (\<lambda>d labels. \<lparr>px_width = 512, px_height = 512\<rparr>)\<rparr>"

section \<open>Properties of the sampling library's draws\<close>

lemma next_uint64_less: "next_uint64 g = (w, g') \<Longrightarrow> w < 2 ^ 64"
  by (auto simp: next_uint64_def)

lemma next_uint32_less: "next_uint32 g = (h, g') \<Longrightarrow> h < 2 ^ 32"
  by (auto simp: next_uint32_def next_uint64_def split: option.splits)

lemma scaled_le:
  fixes h m k :: nat
  assumes "h < k"
  shows "h * (m + 1) div k \<le> m"
proof -
  have "h * (m + 1) < k * (m + 1)" using assms by (intro mult_less_mono1) simp_all
  then have "h * (m + 1) < (m + 1) * k" by (simp only: mult.commute [of k])
  then have "h * (m + 1) div k < m + 1" by (rule less_mult_imp_div_less)
  then show ?thesis by simp
qed

lemma bounded_uint64_le: "bounded_uint64 m g = (v, g') \<Longrightarrow> v \<le> m"
proof -
  assume a: "bounded_uint64 m g = (v, g')"
  obtain h g1 where h: "next_uint32 g = (h, g1)" by (cases "next_uint32 g")
  obtain w g2 where w: "next_uint64 g = (w, g2)" by (cases "next_uint64 g")
  note h32 = next_uint32_less [OF h] and w64 = next_uint64_less [OF w]
  consider "m = 0" | "m \<noteq> 0" "m < 2 ^ 32 - 1" | "m = 2 ^ 32 - 1" | "m = 2 ^ 64 - 1"
    | "m \<noteq> 0" "\<not> m < 2 ^ 32 - 1" "m \<noteq> 2 ^ 32 - 1" "m \<noteq> 2 ^ 64 - 1"
    by blast
  then show ?thesis
  proof cases
    case 1
    with a show ?thesis by (simp add: bounded_uint64_def)
  next
    case 2
    with a h have "v = h * (m + 1) div 2 ^ 32" by (simp add: bounded_uint64_def)
    with scaled_le [OF h32] show ?thesis by simp
  next
    case 3
    with a h have "v = h" by (simp add: bounded_uint64_def)
    with h32 3 show ?thesis by simp
  next
    case 4
    with a w have "v = w" by (simp add: bounded_uint64_def)
    with w64 4 show ?thesis by simp
  next
    case 5
    with a w have "v = w * (m + 1) div 2 ^ 64" by (simp add: bounded_uint64_def)
    with scaled_le [OF w64] show ?thesis by simp
  qed
qed

lemma lemire_accepts_small:
  assumes "0 < h" and "h * (m + 1) < 2 ^ 32"
  shows "lemire_accepts m h"
proof -
  have "(2::nat) ^ 32 mod (m + 1) < m + 1" by simp
  also have "m + 1 \<le> h * (m + 1)" using assms(1) by (cases h) simp_all
  finally show ?thesis using assms(2) by (simp add: lemire_accepts_def)
qed

lemma next_double_range: "next_double g = (u, g') \<Longrightarrow> 0 \<le> u \<and> u < 1"
proof -
  assume a: "next_double g = (u, g')"
  have "shd (words g) mod 2 ^ 64 < (2::nat) ^ 64" by simp
  then have "shd (words g) mod 2 ^ 64 div 2 ^ 11 < (2::nat) ^ 53"
    by (simp add: less_mult_imp_div_less)
  then have "real (shd (words g) mod 2 ^ 64 div 2 ^ 11) < 2 ^ 53"
    by (metis of_nat_less_iff of_nat_numeral of_nat_power)
  with a show ?thesis
    by (auto simp: next_double_def next_uint64_def)
qed

lemma floyd_inv:
  "floyd r j acc g = (idx, g') \<Longrightarrow> distinct acc \<Longrightarrow> set acc \<subseteq> {..<j} \<Longrightarrow>
     distinct idx \<and> set idx \<subseteq> {..<j + r} \<and> length idx = length acc + r"
proof (induction r arbitrary: j acc g)
  case 0
  then show ?case by auto
next
  case (Suc r)
  obtain v g1 where b: "bounded_uint64 j g = (v, g1)" by (cases "bounded_uint64 j g")
  then have vj: "v \<le> j" by (rule bounded_uint64_le)
  let ?acc = "acc @ [if v \<in> set acc then j else v]"
  from Suc.prems(1) b have run: "floyd r (Suc j) ?acc g1 = (idx, g')" by simp
  have d: "distinct ?acc" using Suc.prems(2,3) by auto
  have s: "set ?acc \<subseteq> {..<Suc j}" using Suc.prems(3) vj by auto
  from Suc.IH [OF run d s] show ?case by simp
qed

lemma shuffle_int_perm:
  "shuffle_int first n xs g = (ys, g') \<Longrightarrow> n \<le> length xs \<Longrightarrow>
     distinct ys = distinct xs \<and> set ys = set xs \<and> length ys = length xs"
proof (induction n arbitrary: xs g)
  case 0
  then show ?case by simp
next
  case (Suc i)
  show ?case
  proof (cases "Suc i \<le> first")
    case True
    with Suc.prems show ?thesis by simp
  next
    case False
    obtain j g1 where b: "bounded_uint64 i g = (j, g1)" by (cases "bounded_uint64 i g")
    then have ji: "j \<le> i" by (rule bounded_uint64_le)
    let ?xs = "xs[j := xs ! i, i := xs ! j]"
    from Suc.prems(1) False b have run: "shuffle_int first i ?xs g1 = (ys, g')" by simp
    have len: "i \<le> length ?xs" using Suc.prems(2) by simp
    have il: "i < length xs" and jl: "j < length xs" using Suc.prems(2) ji by auto
    from Suc.IH [OF run len] il jl show ?thesis by simp
  qed
qed

lemma choice_ok:
  assumes "0 \<le> count" "count \<le> int n"
  shows "\<exists>idx g'. choice n count g = Inr (idx, g') \<and> length idx = nat count
           \<and> distinct idx \<and> set idx \<subseteq> {..<n}"
proof (cases "10000 < n \<and> n div 50 < nat count")
  case True
  obtain xs g' where sh: "shuffle_int (max (n - nat count) 1) n [0..<n] g = (xs, g')"
    by (cases "shuffle_int (max (n - nat count) 1) n [0..<n] g")
  from shuffle_int_perm [OF sh] have p: "distinct xs" "set xs = {0..<n}" "length xs = n"
    by auto
  have "choice n count g = Inr (drop (n - nat count) xs, g')"
    using assms True sh by (simp add: choice_def Let_def)
  moreover have "length (drop (n - nat count) xs) = nat count" using p assms by auto
  moreover have "distinct (drop (n - nat count) xs)" using p by simp
  moreover have "set (drop (n - nat count) xs) \<subseteq> {..<n}"
    using p set_drop_subset [of "n - nat count" xs] by auto
  ultimately show ?thesis by blast
next
  case False
  obtain idx g1 where fl: "floyd (nat count) (n - nat count) [] g = (idx, g1)"
    by (cases "floyd (nat count) (n - nat count) [] g")
  from floyd_inv [OF fl] assms
  have f: "distinct idx" "set idx \<subseteq> {..<n}" "length idx = nat count" by auto
  obtain ys g' where sh: "shuffle_int 1 (nat count) idx g1 = (ys, g')"
    by (cases "shuffle_int 1 (nat count) idx g1")
  from shuffle_int_perm [OF sh] f have "distinct ys" "set ys \<subseteq> {..<n}" "length ys = nat count"
    by auto
  moreover have "choice n count g = Inr (ys, g')"
    using assms False fl sh by (auto simp: choice_def Let_def)
  ultimately show ?thesis by blast
qed

lemma choice_raises:
  "count < 0 \<or> int n < count \<Longrightarrow> choice n count g = Inl ValueError_choice"
  by (simp add: choice_def)

lemma uniform_pair_range:
  "b < low \<Longrightarrow> uniform low [low, b] count g = Inl ValueError_range"
  by (simp add: uniform_def)

lemma uniform_pair_raises:
  "low \<le> b \<Longrightarrow> 0 \<le> count \<Longrightarrow> count \<noteq> 2 \<Longrightarrow>
     uniform low [low, b] count g = Inl ValueError_broadcast"
  by (simp add: uniform_def)

lemma uniform_pair_two:
  "low \<le> b \<Longrightarrow>
   uniform low [low, b] 2 g =
     (case next_double g of (u0, g1) \<Rightarrow> case next_double g1 of (u1, g2) \<Rightarrow>
        Inr ([low, low + (b - low) * u1], g2))"
  by (simp add: uniform_def numeral_2_eq_2 split: prod.splits)

section \<open>Properties of \<open>add_outliers\<close> and of the script\<close>

lemma length_normals: "length (fst (normals draw n g)) = n"
  by (induction n arbitrary: g) (simp_all add: case_prod_beta)

lemma lognormal_eq:
  "lognormal L m sg n s =
     (Inr (fresh s),
      s\<lparr>rng := snd (normals (standard_normal L) n (rng s)),
        heap := (heap s)(fresh s := map (\<lambda>z. exp (m + sg * z))
                                      (fst (normals (standard_normal L) n (rng s)))),
        fresh := Suc (fresh s)\<rparr>)"
  by (simp add: lognormal_def alloc_def split: prod.splits)

lemma sampled_heap:
  "length (heap (sampled L fs) 0) = n_per_segment"
  "length (heap (sampled L fs) 1) = n_per_segment"
  "length (heap (sampled L fs) 2) = n_per_segment"
  "files (sampled L fs) = fs"
  "fresh (sampled L fs) = 3"
  by (simp_all add: sampled_def bind_run_def lognormal_eq init_def length_normals)

lemma add_outliers_raises_broadcast:
  assumes "0 \<le> count" "count \<le> int (length (heap s arr))" "count \<noteq> 2" "fst fr \<le> snd fr"
  shows "\<exists>g1. add_outliers arr count fr s = (Inl ValueError_broadcast, s\<lparr>rng := g1\<rparr>)"
proof -
  from choice_ok [OF assms(1,2)]
  obtain idx g1 where "choice (length (heap s arr)) count (rng s) = Inr (idx, g1)" by blast
  then have "add_outliers arr count fr s = (Inl ValueError_broadcast, s\<lparr>rng := g1\<rparr>)"
    using assms by (simp add: add_outliers_def uniform_pair_raises)
  then show ?thesis ..
qed

lemma add_outliers_raises_range:
  assumes "0 \<le> count" "count \<le> int (length (heap s arr))" "snd fr < fst fr"
  shows "\<exists>g1. add_outliers arr count fr s = (Inl ValueError_range, s\<lparr>rng := g1\<rparr>)"
proof -
  from choice_ok [OF assms(1,2)]
  obtain idx g1 where "choice (length (heap s arr)) count (rng s) = Inr (idx, g1)" by blast
  then have "add_outliers arr count fr s = (Inl ValueError_range, s\<lparr>rng := g1\<rparr>)"
    using assms by (simp add: add_outliers_def uniform_pair_range)
  then show ?thesis ..
qed

lemma add_outliers_raises_choice:
  "count < 0 \<or> int (length (heap s arr)) < count \<Longrightarrow>
     add_outliers arr count fr s = (Inl ValueError_choice, s)"
  by (simp add: add_outliers_def choice_raises)

lemma script_first_call:
  "\<exists>g. add_outliers 0 6 (3, 6) (sampled L fs)
          = (Inl ValueError_broadcast, (sampled L fs)\<lparr>rng := g\<rparr>)
      \<and> script L fs = (Inl ValueError_broadcast, (sampled L fs)\<lparr>rng := g\<rparr>)"
proof -
  have "(0::int) \<le> 6" "6 \<le> int (length (heap (sampled L fs) 0))" "(6::int) \<noteq> 2"
    "fst (3::real, 6::real) \<le> snd (3::real, 6::real)"
    by (simp_all add: sampled_heap n_per_segment_def)
  from add_outliers_raises_broadcast [OF this]
  obtain g where a: "add_outliers 0 6 (3, 6) (sampled L fs)
                       = (Inl ValueError_broadcast, (sampled L fs)\<lparr>rng := g\<rparr>)"
    by blast
  have "script L fs = (Inl ValueError_broadcast, (sampled L fs)\<lparr>rng := g\<rparr>)"
    using a by (simp add: script_def sampled_def bind_run_def lognormal_eq init_def)
  with a show ?thesis by blast
qed

lemma script_raises:
  "\<exists>g. script L fs = (Inl ValueError_broadcast, (sampled L fs)\<lparr>rng := g\<rparr>)"
  using script_first_call [of L fs] by blast









lemma add_outliers_two_factors:
  assumes "2 \<le> length (heap s arr)" "lo \<le> hi"
  shows "\<exists>i0 i1 u g2. i0 \<noteq> i1 \<and> i0 < length (heap s arr) \<and> i1 < length (heap s arr)
           \<and> 0 \<le> u \<and> u < 1
           \<and> add_outliers arr 2 (lo, hi) s =
               (Inr arr,
                s\<lparr>heap := (heap s)(arr := (heap s arr)
                     [i0 := heap s arr ! i0 * lo, i1 := heap s arr ! i1 * (lo + (hi - lo) * u)]),
                  rng := g2\<rparr>)"
proof -
  from choice_ok [of 2 "length (heap s arr)" "rng s"] assms
  obtain idx g1 where c: "choice (length (heap s arr)) 2 (rng s) = Inr (idx, g1)"
    and i: "length idx = 2" "distinct idx" "set idx \<subseteq> {..<length (heap s arr)}" by auto
  from i(1) obtain i0 i1 where idx: "idx = [i0, i1]"
    by (cases idx; cases "tl idx"; cases "tl (tl idx)") auto
  obtain u0 ga where d0: "next_double g1 = (u0, ga)" by (cases "next_double g1")
  obtain u g2 where d1: "next_double ga = (u, g2)" by (cases "next_double ga")
  from next_double_range [OF d1] have "0 \<le> u" "u < 1" by auto
  moreover have "i0 \<noteq> i1" "i0 < length (heap s arr)" "i1 < length (heap s arr)"
    using i idx by auto
  moreover have "add_outliers arr 2 (lo, hi) s =
               (Inr arr,
                s\<lparr>heap := (heap s)(arr := (heap s arr)
                     [i0 := heap s arr ! i0 * lo, i1 := heap s arr ! i1 * (lo + (hi - lo) * u)]),
                  rng := g2\<rparr>)"
    using assms(2) by (simp add: add_outliers_def c idx uniform_pair_two d0 d1 assign_def)
  ultimately show ?thesis by blast
qed

text \<open>A run of the returning case: both drawn entries are multiplied, the third is kept.\<close>

lemma floyd_two: "floyd 2 j acc g = floyd (Suc (Suc 0)) j acc g"
  by (simp only: numeral_2_eq_2)

lemma shuffle_int_two: "shuffle_int f 2 xs g = shuffle_int f (Suc (Suc 0)) xs g"
  by (simp only: numeral_2_eq_2)

lemma choice_small_state:
  "choice (length (heap small_state 0)) 2 (rng small_state)
     = Inr ([2, 0], \<lparr>words = sconst 9223372036854775808, uinteger = Some 2\<rparr>)"
  by (simp add: small_state_def choice_def floyd_two shuffle_int_two bounded_uint64_def
        next_uint32_def next_uint64_def Let_def)

lemma uniform_small_state:
  "uniform 3 [3, 6] 2 \<lparr>words = sconst 9223372036854775808, uinteger = Some 2\<rparr>
     = Inr ([3, 9 / 2], \<lparr>words = sconst 9223372036854775808, uinteger = Some 2\<rparr>)"
  by (simp add: uniform_pair_two next_double_def next_uint64_def)

lemma add_outliers_small_state:
  "add_outliers 0 2 (3, 6) small_state
     = (Inr 0,
        small_state\<lparr>heap := (heap small_state)(0 := [45, 20, 90]),
                    rng := \<lparr>words = sconst 9223372036854775808, uinteger = Some 2\<rparr>\<rparr>)"
  by (simp add: add_outliers_def choice_small_state uniform_small_state assign_def)
     (simp add: small_state_def)

section \<open>Properties of sampling, rounding and the table\<close>

lemma lognormal_samples:
  "fst (lognormal L m sg n s) = Inr (fresh s)
   \<and> length (heap (snd (lognormal L m sg n s)) (fresh s)) = n
   \<and> (\<forall>x \<in> set (heap (snd (lognormal L m sg n s)) (fresh s)). 0 < x)"
  by (simp add: lognormal_eq length_normals)

lemma np_repeat_segments:
  "np_repeat segments n = replicate n ''Budget'' @ replicate n ''Standard'' @ replicate n ''Premium''"
  by (simp add: np_repeat_def segments_def)

lemma make_df_eq:
  assumes "length b = n_per_segment" "length s = n_per_segment" "length p = n_per_segment"
  shows "make_df b s p =
           Inr \<lparr>segment = replicate 400 ''Budget'' @ replicate 400 ''Standard''
                              @ replicate 400 ''Premium'',
                spend = b @ s @ p\<rparr>"
  using assms by (simp add: make_df_def DataFrame_def np_repeat_segments n_per_segment_def)

lemma length_np_round: "length (np_round L a d) = length a"
  by (simp add: np_round_def)

section \<open>Properties of the tick labels\<close>

lemma is_digit_digit_char: "d < 10 \<Longrightarrow> is_digit (digit_char d)"
  by (simp add: is_digit_def digit_char_def)

lemma digit_val_digit_char: "d < 10 \<Longrightarrow> digit_val (digit_char d) = d"
  by (simp add: digit_val_def digit_char_def)

lemma not_digit_marks:
  "\<not> is_digit CHR '',''" "\<not> is_digit CHR ''$''" "\<not> is_digit CHR ''.''" "\<not> is_digit CHR ''-''"
  by (simp_all add: is_digit_def)

lemma digits_of_digits: "c \<in> set (digits_of n) \<Longrightarrow> is_digit c"
proof (induction n rule: digits_of.induct)
  case (1 n)
  show ?case
  proof (cases "n < 10")
    case True
    with "1.prems" show ?thesis by (simp add: digits_of.simps [of n] is_digit_digit_char)
  next
    case False
    with "1.prems" "1.IH" show ?thesis
      by (auto simp: digits_of.simps [of n] is_digit_digit_char)
  qed
qed

lemma digits_of_nonempty: "digits_of n \<noteq> []"
  by (simp add: digits_of.simps [of n])

lemma digits_of_thousands:
  assumes "1000 \<le> n"
  shows "digits_of n = digits_of (n div 1000) @
           [digit_char (n div 100 mod 10), digit_char (n div 10 mod 10), digit_char (n mod 10)]"
proof -
  have a: "\<not> n < 10" "\<not> n div 10 < 10" "\<not> n div 10 div 10 < 10" using assms by auto
  have d: "n div 10 div 10 = n div 100" "n div 10 div 10 div 10 = n div 1000"
    by (simp_all add: div_mult2_eq [symmetric])
  show ?thesis
    using a d
    by (simp add: digits_of.simps [of n] digits_of.simps [of "n div 10"]
          digits_of.simps [of "n div 100"])
qed

lemma length_digits_of_small: "n < 1000 \<Longrightarrow> length (digits_of n) \<le> 3"
  by (simp add: digits_of.simps [of n] digits_of.simps [of "n div 10"]
        digits_of.simps [of "n div 10 div 10"])

lemma group3_snoc3:
  "xs \<noteq> [] \<Longrightarrow> group3 (xs @ [a, b, c]) = group3 xs @ CHR '','' # [a, b, c]"
  by (simp add: group3.simps [of "xs @ [a, b, c]"])

lemma group3_whole_dollars: "group3 (digits_of n) = spec_whole_dollars n"
proof (induction n rule: spec_whole_dollars.induct)
  case (1 n)
  show ?case
  proof (cases "n < 1000")
    case True
    then show ?thesis
      using length_digits_of_small [of n]
      by (simp add: spec_whole_dollars.simps [of n] group3.simps [of "digits_of n"])
  next
    case False
    then have "1000 \<le> n" by simp
    from digits_of_thousands [OF this] "1.IH" [OF False] False show ?thesis
      by (simp add: spec_whole_dollars.simps [of n] group3_snoc3 digits_of_nonempty)
  qed
qed

lemma filter_group3: "(\<And>c. c \<in> set ds \<Longrightarrow> is_digit c) \<Longrightarrow> filter is_digit (group3 ds) = ds"
proof (induction ds rule: group3.induct)
  case (1 ds)
  show ?case
  proof (cases "length ds \<le> 3")
    case True
    with "1.prems" show ?thesis by (simp add: group3.simps [of ds] filter_id_conv)
  next
    case False
    have t: "\<And>c. c \<in> set (take (length ds - 3) ds) \<Longrightarrow> is_digit c"
      using "1.prems" by (meson in_set_takeD)
    have d: "filter is_digit (drop (length ds - 3) ds) = drop (length ds - 3) ds"
      using "1.prems" by (simp add: filter_id_conv) (meson in_set_dropD)
    from "1.IH" [OF False t] d False show ?thesis
      by (simp add: group3.simps [of ds] not_digit_marks)
  qed
qed

lemma digits_value_digits_of: "foldl (\<lambda>a c. 10 * a + digit_val c) 0 (digits_of n) = n"
proof (induction n rule: digits_of.induct)
  case (1 n)
  show ?case
  proof (cases "n < 10")
    case True
    then show ?thesis by (simp add: digits_of.simps [of n] digit_val_digit_char)
  next
    case False
    with "1.IH" show ?thesis by (simp add: digits_of.simps [of n] digit_val_digit_char)
  qed
qed

lemma tick_label_whole:
  "1 \<le> t \<Longrightarrow> tick_label t = ''$'' @ spec_whole_dollars (nat \<lfloor>t\<rfloor>)"
proof -
  assume t: "1 \<le> t"
  then have "0 \<le> \<lfloor>t\<rfloor>" by simp
  with t show ?thesis
    by (simp add: tick_label_def format_int_comma_def py_int_def group3_whole_dollars)
qed

lemma digits_value_whole: "digits_value (''$'' @ spec_whole_dollars n) = n"
  using filter_group3 [of "digits_of n"] digits_of_digits [of _ n]
  by (simp add: digits_value_def not_digit_marks group3_whole_dollars [symmetric]
        digits_value_digits_of)



lemma spec_whole_dollars_chars: "c \<in> set (spec_whole_dollars n) \<Longrightarrow> is_digit c \<or> c = CHR '',''"
proof (induction n rule: spec_whole_dollars.induct)
  case (1 n)
  show ?case
  proof (cases "n < 1000")
    case True
    with "1.prems" show ?thesis by (simp add: spec_whole_dollars.simps [of n] digits_of_digits)
  next
    case False
    with "1.prems" "1.IH" show ?thesis
      by (auto simp: spec_whole_dollars.simps [of n] is_digit_digit_char)
  qed
qed

lemma tick_label_fixed:
  assumes "t < 1"
  shows "tick_label t =
           ''$'' @ ((if t < 0 then ''-'' else []) @ digits_of (nat (rint (\<bar>t\<bar> * 100)) div 100))
             @ ''.'' @ [digit_char (nat (rint (\<bar>t\<bar> * 100)) mod 100 div 10),
                        digit_char (nat (rint (\<bar>t\<bar> * 100)) mod 10)]"
  using assms by (simp add: tick_label_def format_fixed2_def Let_def)

lemma filter_digits_of: "filter is_digit (digits_of n) = digits_of n"
  by (simp add: filter_id_conv digits_of_digits)

lemma digits_value_snoc2:
  assumes "d1 < 10" "d0 < 10"
  shows "foldl (\<lambda>a c. 10 * a + digit_val c) 0 (digits_of n @ [digit_char d1, digit_char d0])
           = 10 * (10 * n + d1) + d0"
  using assms by (simp add: digits_value_digits_of digit_val_digit_char)

lemma filter_fixed:
  assumes "d1 < 10" "d0 < 10"
  shows "filter is_digit (''$'' @ ((if neg then ''-'' else []) @ digits_of n) @ ''.''
                            @ [digit_char d1, digit_char d0])
           = digits_of n @ [digit_char d1, digit_char d0]"
  using assms by (simp add: not_digit_marks filter_digits_of is_digit_digit_char)

lemma regroup: "10 * (10 * a + b) + c = 100 * a + (10 * b + (c::nat))"
  by simp

lemma hundredths: "10 * (10 * (h div 100) + h mod 100 div 10) + h mod 10 = (h::nat)"
proof -
  have a: "h mod 10 = h mod 100 mod 10" by (simp add: mod_mod_cancel)
  have b: "10 * (h mod 100 div 10) + h mod 100 mod 10 = h mod 100"
    by (rule mult_div_mod_eq)
  have c: "100 * (h div 100) + h mod 100 = h" by (rule mult_div_mod_eq)
  show ?thesis
    by (subst a) (simp only: regroup b c)
qed

lemma digits_value_fixed:
  assumes "t < 1"
  shows "digits_value (tick_label t) = nat (rint (\<bar>t\<bar> * 100))"
proof -
  let ?h = "nat (rint (\<bar>t\<bar> * 100))"
  have d: "?h mod 100 div 10 < 10" "?h mod 10 < 10"
    by (simp_all add: div_less_iff_less_mult)
  show ?thesis
    unfolding digits_value_def tick_label_fixed [OF assms] filter_fixed [OF d]
      digits_value_snoc2 [OF d]
    by (rule hundredths)
qed

section \<open>The sampler\<close>

text \<open>
  C5. The indices drawn for a segment are as many as the configured count and pairwise
  distinct: for every count between 0 and the length of the array, so for 6, 8 and 10 on an
  array of 400 samples, the index draw of \<open>add_outliers\<close> returns a list of exactly
  \<open>count\<close> indices, all different and all inside the array.
\<close>

theorem choice_without_replacement:
  assumes "0 \<le> count" and "count \<le> int (length (heap s arr))"
  shows "\<exists>idx g1. choice (length (heap s arr)) count (rng s) = Inr (idx, g1)
           \<and> int (card (set idx)) = count \<and> int (length idx) = count \<and> distinct idx
           \<and> set idx \<subseteq> {..<length (heap s arr)}"
proof -
  from choice_ok [OF assms, of "rng s"]
  obtain idx g1 where c: "choice (length (heap s arr)) count (rng s) = Inr (idx, g1)"
    and i: "length idx = nat count" "distinct idx" "set idx \<subseteq> {..<length (heap s arr)}"
    by blast
  from i(1,2) have "card (set idx) = nat count" by (simp add: distinct_card)
  with c i assms(1) show ?thesis by auto
qed

theorem choice_without_replacement_witness:
  "(\<exists>idx g1. choice (length (heap segment_state 0)) 6 (rng segment_state) = Inr (idx, g1)
           \<and> int (card (set idx)) = 6 \<and> int (length idx) = 6 \<and> distinct idx
           \<and> set idx \<subseteq> {..<length (heap segment_state 0)})
   \<and> (\<exists>idx g1. choice (length (heap segment_state 0)) 8 (rng segment_state) = Inr (idx, g1)
           \<and> int (card (set idx)) = 8 \<and> int (length idx) = 8 \<and> distinct idx
           \<and> set idx \<subseteq> {..<length (heap segment_state 0)})
   \<and> (\<exists>idx g1. choice (length (heap segment_state 0)) 10 (rng segment_state) = Inr (idx, g1)
           \<and> int (card (set idx)) = 10 \<and> int (length idx) = 10 \<and> distinct idx
           \<and> set idx \<subseteq> {..<length (heap segment_state 0)})"
  using choice_without_replacement [of 6 segment_state 0]
    choice_without_replacement [of 8 segment_state 0]
    choice_without_replacement [of 10 segment_state 0]
  by (simp add: segment_state_def)


text \<open>
  C1. Each selected sample is to be multiplied by a factor from the range 3 to 6. On an array
  of 400 samples with the configured count 6 the call raises at the factor draw and leaves
  the array as it was: no selected sample is multiplied. (For a count of 2, the only one for
  which the call returns, \<open>add_outliers_two_factors\<close> gives the factors: the lower bound
  itself for the first index, a value from the range for the second.)
\<close>

theorem add_outliers_six_raises:
  "fst (add_outliers 0 6 (3, 6) segment_state) = Inl ValueError_broadcast
   \<and> heap (snd (add_outliers 0 6 (3, 6) segment_state)) = heap segment_state"
proof -
  have "(0::int) \<le> 6" "6 \<le> int (length (heap segment_state 0))" "(6::int) \<noteq> 2"
    "fst (3::real, 6::real) \<le> snd (3::real, 6::real)"
    by (simp_all add: segment_state_def)
  from add_outliers_raises_broadcast [OF this] show ?thesis by auto
qed

text \<open>
  C2, as amended. For every count other than 2 the call \<open>add_outliers(arr, count)\<close> raises
  and leaves the heap as it was: at the factor draw when the count lies between 0 and the
  length of the array (the bounds do not broadcast; for a range whose upper end is below its
  lower end the same draw raises on that first), and already at the index draw otherwise.
  The script therefore ends with the error of its first \<open>add_outliers\<close> call, raised at the
  factor draw: its final state is the state after sampling up to the generator, with three
  arrays allocated, no table assembled and no file written.
\<close>

theorem add_outliers_raises_unless_two:
  assumes "count \<noteq> 2"
  shows "fst (add_outliers arr count fr s) =
           (if 0 \<le> count \<and> count \<le> int (length (heap s arr))
            then (if snd fr < fst fr then Inl ValueError_range else Inl ValueError_broadcast)
            else Inl ValueError_choice)
         \<and> heap (snd (add_outliers arr count fr s)) = heap s
         \<and> (\<exists>g. add_outliers 0 6 (3, 6) (sampled L fs)
                    = (Inl ValueError_broadcast, (sampled L fs)\<lparr>rng := g\<rparr>)
                \<and> script L fs = (Inl ValueError_broadcast, (sampled L fs)\<lparr>rng := g\<rparr>))
         \<and> fresh (snd (script L fs)) = 3
         \<and> files (snd (script L fs)) = fs"
proof (intro conjI)
  consider "count < 0 \<or> int (length (heap s arr)) < count"
    | "0 \<le> count" "count \<le> int (length (heap s arr))" "snd fr < fst fr"
    | "0 \<le> count" "count \<le> int (length (heap s arr))" "fst fr \<le> snd fr"
    by linarith
  then have "fst (add_outliers arr count fr s) =
           (if 0 \<le> count \<and> count \<le> int (length (heap s arr))
            then (if snd fr < fst fr then Inl ValueError_range else Inl ValueError_broadcast)
            else Inl ValueError_choice)
         \<and> heap (snd (add_outliers arr count fr s)) = heap s"
  proof cases
    case 1
    then show ?thesis using add_outliers_raises_choice [of count s arr fr] by auto
  next
    case 2
    then show ?thesis using add_outliers_raises_range [of count s arr fr] by auto
  next
    case 3
    then show ?thesis using assms add_outliers_raises_broadcast [of count s arr fr] by auto
  qed
  then show "fst (add_outliers arr count fr s) =
           (if 0 \<le> count \<and> count \<le> int (length (heap s arr))
            then (if snd fr < fst fr then Inl ValueError_range else Inl ValueError_broadcast)
            else Inl ValueError_choice)"
    and "heap (snd (add_outliers arr count fr s)) = heap s"
    by blast+
  from script_raises [of L fs]
  obtain g where g: "script L fs = (Inl ValueError_broadcast, (sampled L fs)\<lparr>rng := g\<rparr>)" ..
  then show "fresh (snd (script L fs)) = 3" and "files (snd (script L fs)) = fs"
    by (simp_all add: sampled_heap)
  show "\<exists>g. add_outliers 0 6 (3, 6) (sampled L fs)
                    = (Inl ValueError_broadcast, (sampled L fs)\<lparr>rng := g\<rparr>)
                \<and> script L fs = (Inl ValueError_broadcast, (sampled L fs)\<lparr>rng := g\<rparr>)"
    by (rule script_first_call)
qed

theorem add_outliers_raises_unless_two_witness:
  "fst (add_outliers 0 6 (3, 6) segment_state) = Inl ValueError_broadcast
   \<and> fst (script plain_lib Map.empty) = Inl ValueError_broadcast
   \<and> files (snd (script plain_lib Map.empty)) = Map.empty"
  using add_outliers_raises_unless_two [of 6 0 "(3, 6)" segment_state plain_lib Map.empty]
  by (auto simp: segment_state_def)

text \<open>
  The claim as first stated, that the exception comes from the factor draw for every count
  other than 2, fails for a count above the length of the array: the index draw raises first.
\<close>

theorem add_outliers_raise_site_counterexample:
  "(5::int) \<noteq> 2
   \<and> fst (add_outliers 0 5 (3, 6) small_state) = Inl ValueError_choice
   \<and> fst (add_outliers 0 5 (3, 6) small_state) \<noteq> Inl ValueError_broadcast"
  by (simp add: add_outliers_raises_choice small_state_def)

text \<open>
  C8. The script is to leave one file \<open>chart.png\<close> behind. In every run it raises at the first
  \<open>add_outliers\<close> call and the files are those it started with.
\<close>

theorem script_writes_no_file:
  "fst (script L fs) = Inl ValueError_broadcast \<and> files (snd (script L fs)) = fs"
  using script_raises [of L fs] by (auto simp: sampled_heap)



section \<open>The table\<close>

text \<open>
  Lines 46 to 49 are written for three arrays of \<open>n_per_segment\<close> entries each:
  \<open>lognormal_samples\<close> gives the length of the samples, a call of \<open>add_outliers\<close> that
  returns keeps it (\<open>length_assign\<close>), and so does rounding (\<open>length_np_round\<close>).
\<close>

text \<open>
  C4. From three arrays of \<open>n_per_segment\<close> values the table has \<open>3 * n_per_segment = 1200\<close>
  rows; rows 0 to 399 carry the label Budget, rows 400 to 799 Standard, rows 800 to 1199
  Premium; the spend column is the Budget array followed by the Standard array followed by
  the Premium array, every value at its place, none dropped and none moved.
\<close>

theorem make_df_rows:
  assumes "length b = n_per_segment" "length s = n_per_segment" "length p = n_per_segment"
  shows "\<exists>d. make_df b s p = Inr d
           \<and> 3 * n_per_segment = 1200
           \<and> length (segment d) = 1200 \<and> length (spend d) = 1200
           \<and> (\<forall>i. i < 400 \<longrightarrow> segment d ! i = ''Budget'' \<and> spend d ! i = b ! i)
           \<and> (\<forall>i. 400 \<le> i \<and> i < 800 \<longrightarrow>
                  segment d ! i = ''Standard'' \<and> spend d ! i = s ! (i - 400))
           \<and> (\<forall>i. 800 \<le> i \<and> i < 1200 \<longrightarrow>
                  segment d ! i = ''Premium'' \<and> spend d ! i = p ! (i - 800))
           \<and> spend d = b @ s @ p"
proof -
  let ?d = "\<lparr>segment = replicate 400 ''Budget'' @ replicate 400 ''Standard''
                              @ replicate 400 ''Premium'',
                spend = b @ s @ p\<rparr>"
  have l: "length b = 400" "length s = 400" "length p = 400"
    using assms by (simp_all add: n_per_segment_def)
  have "make_df b s p = Inr ?d" by (rule make_df_eq [OF assms])
  moreover have "3 * n_per_segment = 1200" by (simp add: n_per_segment_def)
  moreover have "length (segment ?d) = 1200" "length (spend ?d) = 1200" using l by simp_all
  moreover have "\<forall>i. i < 400 \<longrightarrow> segment ?d ! i = ''Budget'' \<and> spend ?d ! i = b ! i"
    using l by (simp add: nth_append)
  moreover have "\<forall>i. 400 \<le> i \<and> i < 800 \<longrightarrow>
                  segment ?d ! i = ''Standard'' \<and> spend ?d ! i = s ! (i - 400)"
    using l by (auto simp: nth_append)
  moreover have "\<forall>i. 800 \<le> i \<and> i < 1200 \<longrightarrow>
                  segment ?d ! i = ''Premium'' \<and> spend ?d ! i = p ! (i - 800)"
    using l by (auto simp: nth_append)
  moreover have "spend ?d = b @ s @ p" by simp
  ultimately show ?thesis by blast
qed

theorem make_df_rows_witness:
  "\<exists>d. make_df (replicate 400 1) (replicate 400 2) (replicate 400 3) = Inr d
        \<and> length (segment d) = 1200 \<and> length (spend d) = 1200
        \<and> segment d ! 0 = ''Budget'' \<and> segment d ! 400 = ''Standard''
        \<and> segment d ! 800 = ''Premium''
        \<and> spend d = replicate 400 1 @ replicate 400 2 @ replicate 400 3"
  using make_df_rows [of "replicate 400 1" "replicate 400 2" "replicate 400 3"]
  by (auto simp: n_per_segment_def)

section \<open>Tick labels\<close>

text \<open>
  C6. A tick of at least 1 is labelled with a dollar sign and its whole dollars, written
  with thousands separators; a tick below 1 is labelled with a dollar sign and a number
  with exactly two decimals, whose digits spell the tick in hundredths. In particular 1500
  is labelled \<open>$1,500\<close>, 0.5 is labelled \<open>$0.50\<close> and 0 is labelled \<open>$0.00\<close>.
\<close>

theorem tick_label_currency:
  "(1 \<le> t \<longrightarrow> tick_label t = ''$'' @ spec_whole_dollars (nat \<lfloor>t\<rfloor>))
   \<and> (t < 1 \<longrightarrow>
         (\<exists>w d1 d2. tick_label t = ''$'' @ w @ ''.'' @ [d1, d2] \<and> is_digit d1 \<and> is_digit d2)
         \<and> digits_value (tick_label t) = nat (rint (\<bar>t\<bar> * 100)))
   \<and> tick_label 1500 = ''$1,500''
   \<and> tick_label (1 / 2) = ''$0.50''
   \<and> tick_label 0 = ''$0.00''"
proof (intro conjI impI)
  show "tick_label t = ''$'' @ spec_whole_dollars (nat \<lfloor>t\<rfloor>)" if "1 \<le> t"
    using that by (rule tick_label_whole)
  show "\<exists>w d1 d2. tick_label t = ''$'' @ w @ ''.'' @ [d1, d2] \<and> is_digit d1 \<and> is_digit d2"
    if "t < 1"
  proof -
    let ?h = "nat (rint (\<bar>t\<bar> * 100))"
    have "is_digit (digit_char (?h mod 100 div 10))" "is_digit (digit_char (?h mod 10))"
      by (simp_all add: is_digit_digit_char div_less_iff_less_mult)
    with tick_label_fixed [OF that] show ?thesis by blast
  qed
  show "digits_value (tick_label t) = nat (rint (\<bar>t\<bar> * 100))" if "t < 1"
    using that by (rule digits_value_fixed)
  show "tick_label 1500 = ''$1,500''" by code_simp
  show "tick_label (1 / 2) = ''$0.50''" by code_simp
  show "tick_label 0 = ''$0.00''" by code_simp
qed

theorem tick_label_currency_witness:
  "tick_label 1234 = ''$'' @ spec_whole_dollars 1234
   \<and> spec_whole_dollars 1234 = ''1,234''
   \<and> digits_value (tick_label (1 / 4)) = nat (rint (\<bar>1 / 4\<bar> * 100))
   \<and> tick_label (1 / 4) = ''$0.25''"
proof -
  have a: "nat \<lfloor>1234 :: real\<rfloor> = 1234" by simp
  have b: "spec_whole_dollars 1234 = ''1,234''" by code_simp
  have c: "tick_label (1 / 4) = ''$0.25''" by code_simp
  from tick_label_currency [of 1234] tick_label_currency [of "1 / 4"] a b c
  show ?thesis by simp
qed

text \<open>
  C10. A tick of at least 1 with a fractional part is truncated, not rounded: its label is
  the label of the whole number below it and reads back as that number, differs from the
  label of the whole number above it (which rounding would give from a fractional part of
  one half on), and has no decimal point. So 1.9 is labelled \<open>$1\<close>, neither \<open>$2\<close> nor
  \<open>$1.90\<close>.
\<close>

theorem tick_label_truncates:
  assumes "1 \<le> t" and "t \<noteq> of_int \<lfloor>t\<rfloor>"
  shows "tick_label t = tick_label (of_int \<lfloor>t\<rfloor>)
         \<and> digits_value (tick_label t) = nat \<lfloor>t\<rfloor>
         \<and> tick_label t \<noteq> tick_label (of_int \<lceil>t\<rceil>)
         \<and> (1 / 2 \<le> t - of_int \<lfloor>t\<rfloor> \<longrightarrow> tick_label t \<noteq> tick_label (of_int (round t)))
         \<and> CHR ''.'' \<notin> set (tick_label t)
         \<and> tick_label (19 / 10) = ''$1''"
proof -
  have fl: "1 \<le> \<lfloor>t\<rfloor>" using assms(1) by simp
  have ce: "\<lceil>t\<rceil> = \<lfloor>t\<rfloor> + 1" using assms(2) by (metis ceiling_altdef)
  have lab: "tick_label x = ''$'' @ spec_whole_dollars (nat \<lfloor>x\<rfloor>)" if "1 \<le> x" for x
    using that by (rule tick_label_whole)
  have val: "digits_value (tick_label x) = nat \<lfloor>x\<rfloor>" if "1 \<le> x" for x
    using that digits_value_whole [of "nat \<lfloor>x\<rfloor>"] by (simp add: lab)
  have 1: "tick_label t = tick_label (of_int \<lfloor>t\<rfloor>)"
    using fl assms(1) by (simp add: lab)
  have 2: "digits_value (tick_label t) = nat \<lfloor>t\<rfloor>" using assms(1) by (rule val)
  have "digits_value (tick_label (of_int \<lceil>t\<rceil>)) = nat \<lceil>t\<rceil>"
    using val [of "of_int \<lceil>t\<rceil>"] fl ce by simp
  moreover have "nat \<lceil>t\<rceil> \<noteq> nat \<lfloor>t\<rfloor>" using fl ce by linarith
  ultimately have 3: "tick_label t \<noteq> tick_label (of_int \<lceil>t\<rceil>)" using 2 by metis
  have 4: "tick_label t \<noteq> tick_label (of_int (round t))" if h: "1 / 2 \<le> t - of_int \<lfloor>t\<rfloor>"
  proof -
    have "round t = \<lfloor>t\<rfloor> + 1" unfolding round_def using h by linarith
    with ce 3 show ?thesis by simp
  qed
  have 5: "CHR ''.'' \<notin> set (tick_label t)"
    using spec_whole_dollars_chars [of "CHR ''.''" "nat \<lfloor>t\<rfloor>"]
    by (auto simp: lab [OF assms(1)] not_digit_marks)
  have 6: "tick_label (19 / 10) = ''$1''" by code_simp
  from 1 2 3 4 5 6 show ?thesis by (intro conjI impI)
qed

theorem tick_label_truncates_witness:
  "tick_label (19 / 10) = tick_label 1
   \<and> tick_label (19 / 10) \<noteq> tick_label 2
   \<and> tick_label (19 / 10) = ''$1''
   \<and> tick_label 2 = ''$2''
   \<and> tick_label (19 / 10) \<noteq> ''$1.90''"
proof -
  have f: "\<lfloor>19 / 10 :: real\<rfloor> = 1" "\<lceil>19 / 10 :: real\<rceil> = 2" by simp_all
  have h: "(1::real) \<le> 19 / 10" "(19 / 10 :: real) \<noteq> of_int \<lfloor>19 / 10 :: real\<rfloor>"
    by (simp_all add: f)
  from tick_label_truncates [OF h]
  have a: "tick_label (19 / 10) = tick_label (of_int \<lfloor>19 / 10 :: real\<rfloor>)"
    and b: "tick_label (19 / 10) \<noteq> tick_label (of_int \<lceil>19 / 10 :: real\<rceil>)"
    and c: "tick_label (19 / 10) = ''$1''"
    by blast+
  have 1: "tick_label (19 / 10) = tick_label 1" using a by (simp add: f)
  have 2: "tick_label (19 / 10) \<noteq> tick_label 2" using b by (simp add: f)
  have 3: "tick_label 2 = ''$2''" by code_simp
  have 4: "tick_label (19 / 10) \<noteq> ''$1.90''" by (simp add: c)
  from 1 2 c 3 4 show ?thesis by blast
qed

end
